theory Spec2Isabelle
  imports Complex_Main
begin

section \<open>Paths and names (pathlib)\<close>

text \<open>
  A Python \<open>str\<close> is modelled by the bytes of its UTF-8 encoding. Every character the
  program searches for or inserts (the dot, the slash, the backslash, the digits, the
  space and the parentheses of a numbered name, the letters of its two ASCII needles) is
  one byte below 128, and such a byte occurs in UTF-8 only as that character; so \<open>rfind\<close>, the slices at its result, \<open>lstrip\<close>, \<open>replace\<close>,
  concatenation and \<open>in\<close> act on the bytes as they act on the code points.

  A \<open>Path\<close> is modelled by the list of its name components after the anchor, as pathlib
  keeps it once parsed; the last component is \<open>Path.name\<close>. Joining a directory with a
  single file name (\<open>dst_dir / filename\<close>, where the name has no separator) appends one
  component.
\<close>

type_synonym path = "string list"

definition name :: "path \<Rightarrow> string" where
  "name p = (if p = [] then [] else last p)"

definition joinpath :: "path \<Rightarrow> string \<Rightarrow> path" where
  "joinpath d n = d @ [n]"

text \<open>\<open>str.rfind\<close>: the index of the last occurrence of a character, \<open>-1\<close> when absent.\<close>

definition rfind :: "char \<Rightarrow> string \<Rightarrow> int" where
  "rfind c s = (if c \<in> set s
                then int (length s) - 1 - int (length (takeWhile (\<lambda>x. x \<noteq> c) (rev s)))
                else - 1)"

text \<open>
  \<open>PurePath.suffix\<close> and \<open>PurePath.stem\<close> as pathlib defines them (Python 3.4 to 3.13):
  with \<open>i = name.rfind('.')\<close>, the suffix is \<open>name[i:]\<close> and the stem \<open>name[:i]\<close> when
  \<open>0 < i < len(name) - 1\<close>; otherwise the suffix is empty and the stem is the whole name.
  Python 3.14 differs from this rule only on a name in which nothing but dots precedes the
  last dot, and on a name that ends in a dot.
\<close>

definition suffix :: "path \<Rightarrow> string" where
  "suffix p = (let n = name p; i = rfind (CHR ''.'') n
               in if 0 < i \<and> i < int (length n) - 1 then drop (nat i) n else [])"

definition stem :: "path \<Rightarrow> string" where
  "stem p = (let n = name p; i = rfind (CHR ''.'') n
             in if 0 < i \<and> i < int (length n) - 1 then take (nat i) n else n)"

text \<open>
  \<open>str.lower\<close>. On a string of ASCII characters only it maps \<open>A\<close> to \<open>Z\<close> onto \<open>a\<close> to \<open>z\<close>
  and leaves every other character as it is. On any other string it is the lower-casing
  of the interpreter's Unicode database, which may change the length of the string; that
  function, on UTF-8 strings, is the parameter \<open>ulower\<close> of the model.
\<close>

definition is_ascii :: "char \<Rightarrow> bool" where
  "is_ascii c = (\<not> digit7 c)"

definition ascii_lower :: "char \<Rightarrow> char" where
  "ascii_lower c =
     (case map_of (zip ''ABCDEFGHIJKLMNOPQRSTUVWXYZ'' ''abcdefghijklmnopqrstuvwxyz'') c of
        Some l \<Rightarrow> l
      | None \<Rightarrow> c)"

definition lower :: "(string \<Rightarrow> string) \<Rightarrow> string \<Rightarrow> string" where
  "lower ulower s = (if list_all is_ascii s then map ascii_lower s else ulower s)"

text \<open>\<open>str.lstrip\<close> with a single character to strip.\<close>

definition lstrip :: "char \<Rightarrow> string \<Rightarrow> string" where
  "lstrip c s = dropWhile (\<lambda>x. x = c) s"

text \<open>Python's \<open>sub in s\<close> on strings.\<close>

fun contains :: "string \<Rightarrow> string \<Rightarrow> bool" where
  "contains sub [] = (sub = [])"
| "contains sub (x # xs) = (take (length sub) (x # xs) = sub \<or> contains sub xs)"

text \<open>\<open>str(i)\<close> for a non-negative integer: its decimal digits, most significant first.\<close>

definition digit_char :: "nat \<Rightarrow> char" where
  "digit_char d = ''0123456789'' ! d"

fun str_nat :: "nat \<Rightarrow> string" where
  "str_nat n = (if n < 10 then [digit_char n] else str_nat (n div 10) @ [digit_char (n mod 10)])"

declare str_nat.simps [simp del]

section \<open>Helpers of \<open>ht04.py\<close>\<close>

definition ext_folder_name :: "(string \<Rightarrow> string) \<Rightarrow> path \<Rightarrow> string" where
  "ext_folder_name ulower p =
     (let ext = lstrip (CHR ''.'') (lower ulower (suffix p))
      in if ext \<noteq> [] then ext else ''no_extension'')"

text \<open>
  \<open>_unique_target_path\<close>. The file system is the set \<open>fs\<close> of paths that exist;
  \<open>numbered stem i suffix\<close> is the f-string \<open>f"{stem} ({i}){suffix}"\<close>. The counter starts at
  1 and only grows, so it is a \<open>nat\<close>. The \<open>while True\<close> loop is \<open>probe\<close>: it returns
  \<open>None\<close> when it never finds an absent path.
\<close>

definition numbered :: "string \<Rightarrow> nat \<Rightarrow> string \<Rightarrow> string" where
  "numbered stm i suf = stm @ '' ('' @ str_nat i @ '')'' @ suf"

partial_function (option) probe :: "path set \<Rightarrow> path \<Rightarrow> string \<Rightarrow> string \<Rightarrow> nat \<Rightarrow> path option" where
  "probe fs dst_dir stm suf i =
     (if joinpath dst_dir (numbered stm i suf) \<notin> fs
      then Some (joinpath dst_dir (numbered stm i suf))
      else probe fs dst_dir stm suf (i + 1))"

declare probe.simps [code]

definition unique_target_path :: "path set \<Rightarrow> path \<Rightarrow> string \<Rightarrow> path option" where
  "unique_target_path fs dst_dir filename =
     (let candidate = joinpath dst_dir filename
      in if candidate \<notin> fs then Some candidate
         else probe fs dst_dir (stem [filename]) (suffix [filename]) 1)"

text \<open>
  Exceptions: an instance of \<open>Exception\<close> with its class (as far as the program tells
  classes apart) and \<open>str(exc)\<close>.
\<close>

datatype exc_class = PermissionError | ValueError | OtherError

datatype exc = Exc (cls: exc_class) (msg: string)

definition is_locked_error :: "(string \<Rightarrow> string) \<Rightarrow> exc \<Rightarrow> bool" where
  "is_locked_error ulower e =
     (cls e = PermissionError \<and>
      (contains ''WinError 32'' (msg e) \<or>
       contains ''process cannot access'' (lower ulower (msg e))))"

section \<open>Effects\<close>

text \<open>
  What the program does to the world, in order: a call of \<open>_mkdir_async\<close>, the creation of
  a task for a file, a call of \<open>aioshutil.copy2(src, dst)\<close>, a call of \<open>asyncio.sleep\<close>.
  Delays are Python floats; they are modelled as reals (doubling a float is exact).
\<close>

datatype event = MkDir path | CreateTask path | CopyAttempt path path | Sleep real



fun waits :: "event list \<Rightarrow> real list" where
  "waits [] = []"
| "waits (Sleep d # evs) = d # waits evs"
| "waits (e # evs) = waits evs"

section \<open>\<open>copy_with_retries\<close>\<close>

text \<open>
  One call of the copy primitive either returns or raises. \<open>copy2 k\<close> is what the call
  does after \<open>k\<close> earlier calls for the same file have failed; in the source \<open>attempt\<close>
  counts exactly those failures. The result is the source's pair \<open>(success, reason)\<close>.
  \<open>ulower\<close> is the Unicode lower-casing that \<open>_is_locked_error\<close> applies to the message.
\<close>

datatype attempt_result = Copied | Raised exc

type_synonym result = "bool \<times> string option"

function copy_loop ::
  "(string \<Rightarrow> string) \<Rightarrow> (nat \<Rightarrow> attempt_result) \<Rightarrow> path \<Rightarrow> path \<Rightarrow> int \<Rightarrow> bool \<Rightarrow> nat \<Rightarrow> real
     \<Rightarrow> result \<times> event list" where
  "copy_loop ulower copy2 src dst retries skip_locked attempt backoff =
     (case copy2 attempt of
        Copied \<Rightarrow> ((True, None), [CopyAttempt src dst])
      | Raised e \<Rightarrow>
          (if is_locked_error ulower e \<and> skip_locked
           then ((False, Some ''locked''), [CopyAttempt src dst])
           else if int (attempt + 1) > retries then ((False, Some ''error''), [CopyAttempt src dst])
           else (case copy_loop ulower copy2 src dst retries skip_locked (attempt + 1) (backoff * 2) of
                   (r, evs) \<Rightarrow> (r, CopyAttempt src dst # Sleep backoff # evs))))"
  by pat_completeness auto
termination
  by (relation "measure (\<lambda>(ulower, copy2, src, dst, retries, skip_locked, attempt, backoff).
                   nat (retries - int attempt))") auto

declare copy_loop.simps [simp del]

definition copy_with_retries ::
  "(string \<Rightarrow> string) \<Rightarrow> (nat \<Rightarrow> attempt_result) \<Rightarrow> path \<Rightarrow> path \<Rightarrow> int \<Rightarrow> real \<Rightarrow> bool
     \<Rightarrow> result \<times> event list" where
  "copy_with_retries ulower copy2 src dst retries delay skip_locked =
     copy_loop ulower copy2 src dst retries skip_locked 0 (max 0 delay)"


section \<open>\<open>iter_files_recursive\<close>\<close>

text \<open>
  \<open>str(path)\<close> joins the components with the platform's separator (\<open>/\<close> on POSIX, a
  backslash on Windows); \<open>replace_backslash\<close> is \<open>.replace("\\", "/")\<close>.
\<close>

fun path_str :: "char \<Rightarrow> path \<Rightarrow> string" where
  "path_str sep [] = ''.''"
| "path_str sep [x] = x"
| "path_str sep (x # y # ys) = x @ sep # path_str sep (y # ys)"

definition replace_backslash :: "string \<Rightarrow> string" where
  "replace_backslash s = map (\<lambda>c. if c = CHR 0x5C then CHR ''/'' else c) s"

text \<open>
  The inner loop over the patterns, which sets \<open>skip\<close> at the first pattern that matches
  and stops there. \<open>pmatch rel pat\<close> is the library call \<open>Path(rel).match(pat)\<close>, a
  parameter of the model: it answers, or raises (pathlib raises \<open>ValueError\<close> on an empty
  pattern).
\<close>

fun excluded_by :: "(string \<Rightarrow> string \<Rightarrow> exc + bool) \<Rightarrow> string \<Rightarrow> string list \<Rightarrow> exc + bool" where
  "excluded_by pmatch rel [] = Inr False"
| "excluded_by pmatch rel (pat # pats) =
     (case pmatch rel pat of
        Inl e \<Rightarrow> Inl e
      | Inr m \<Rightarrow> if m then Inr True else excluded_by pmatch rel pats)"

text \<open>
  The generator, consumed by \<open>list(...)\<close>. The entries are what \<open>root.rglob("*")\<close> yields,
  each as its path relative to the root with the answer of \<open>is_file()\<close>; the path yielded is
  the root followed by the relative path. An exception raised while matching leaves the
  generator, so no list is built.
\<close>

fun iter_files_recursive ::
  "(string \<Rightarrow> string \<Rightarrow> exc + bool) \<Rightarrow> char \<Rightarrow> path \<Rightarrow> (path \<times> bool) list \<Rightarrow> string list
     \<Rightarrow> exc + path list" where
  "iter_files_recursive pmatch sep root_dir [] excludes = Inr []"
| "iter_files_recursive pmatch sep root_dir ((rel, is_file) # ps) excludes =
     (if \<not> is_file then iter_files_recursive pmatch sep root_dir ps excludes
      else if excludes \<noteq> [] then
        (case excluded_by pmatch (replace_backslash (path_str sep rel)) excludes of
           Inl e \<Rightarrow> Inl e
         | Inr skip \<Rightarrow>
             if skip then iter_files_recursive pmatch sep root_dir ps excludes
             else (case iter_files_recursive pmatch sep root_dir ps excludes of
                     Inl e \<Rightarrow> Inl e
                   | Inr files \<Rightarrow> Inr ((root_dir @ rel) # files)))
      else (case iter_files_recursive pmatch sep root_dir ps excludes of
              Inl e \<Rightarrow> Inl e
            | Inr files \<Rightarrow> Inr ((root_dir @ rel) # files)))"

section \<open>\<open>copy_file\<close>\<close>

text \<open>
  What one file's task meets: the exception \<open>_mkdir_async(dst_dir)\<close> raises, if any; the
  exception an existence test of \<open>_unique_target_path\<close> raises, if any; otherwise the paths
  that exist while it probes; and what the calls of the copy primitive do. \<open>sem\<close> is the
  value of the semaphore when the task reaches \<open>async with sem\<close>: with no permit left and
  no other task holding one, the task waits forever and \<open>copy_file\<close> does not return.
\<close>

record task_env =
  mkdir_error :: "exc option"
  naming_error :: "exc option"
  existing :: "path list"
  copy_calls :: "nat \<Rightarrow> attempt_result"

definition copy_file ::
  "(string \<Rightarrow> string) \<Rightarrow> task_env \<Rightarrow> path \<Rightarrow> path \<Rightarrow> int \<Rightarrow> int \<Rightarrow> real \<Rightarrow> bool
     \<Rightarrow> (result \<times> event list) option" where
  "copy_file ulower env src out_root sem retries delay skip_locked =
     (let folder = ext_folder_name ulower src;
          dst_dir = joinpath out_root folder
      in case mkdir_error env of
           Some e \<Rightarrow> Some ((False, Some ''error''), [MkDir dst_dir])
         | None \<Rightarrow>
             (case naming_error env of
                Some e \<Rightarrow> Some ((False, Some ''error''), [MkDir dst_dir])
              | None \<Rightarrow>
                  (case unique_target_path (set (existing env)) dst_dir (name src) of
                     None \<Rightarrow> None
                   | Some target \<Rightarrow>
                       if sem \<le> 0 then None
                       else (case copy_with_retries ulower (copy_calls env) src target retries delay
                                    skip_locked of
                               (r, evs) \<Rightarrow> Some (r, MkDir dst_dir # evs)))))"

section \<open>\<open>read_folder\<close>\<close>

text \<open>
  The world of one run: whether the source root exists and is a directory, the exception
  \<open>_mkdir_async(out_root)\<close> raises (if any), what \<open>rglob\<close> yields, the pattern matcher, the
  path separator, the Unicode lower-casing, and the environment of each file's task.

  The tasks are run one after the other in the order of their creation, which is one of
  the interleavings the event loop allows; each task then finds every permit of the
  semaphore free. \<open>asyncio.Semaphore\<close> refuses a negative initial value with \<open>ValueError\<close>.
  A run ends with an exception that leaves \<open>read_folder\<close>, with the early return for an
  empty file list, or with the three counts of the summary it logs; \<open>None\<close> is a run that
  never ends.
\<close>

record world =
  src_exists :: bool
  src_is_dir :: bool
  out_root_mkdir_error :: "exc option"
  rglob :: "(path \<times> bool) list"
  path_match :: "string \<Rightarrow> string \<Rightarrow> exc + bool"
  os_sep :: char
  unicode_lower :: "string \<Rightarrow> string"
  task_env_of :: "path \<Rightarrow> task_env"

datatype fatal = FileNotFound path | Propagated exc

datatype report = NoFiles | Summary nat nat nat

definition gather ::
  "world \<Rightarrow> path list \<Rightarrow> path \<Rightarrow> int \<Rightarrow> int \<Rightarrow> real \<Rightarrow> bool \<Rightarrow> (result \<times> event list) list option" where
  "gather w files out_root sem retries delay skip_locked =
     those (map (\<lambda>file_path. copy_file (unicode_lower w) (task_env_of w file_path) file_path
                                out_root sem retries delay skip_locked) files)"

definition read_folder ::
  "world \<Rightarrow> path \<Rightarrow> path \<Rightarrow> int \<Rightarrow> int \<Rightarrow> real \<Rightarrow> bool \<Rightarrow> string list
     \<Rightarrow> ((fatal + report) \<times> event list) option" where
  "read_folder w src_root out_root max_workers retries delay skip_locked excludes =
     (if \<not> src_exists w \<or> \<not> src_is_dir w then Some (Inl (FileNotFound src_root), [])
      else case out_root_mkdir_error w of
             Some e \<Rightarrow> Some (Inl (Propagated e), [MkDir out_root])
           | None \<Rightarrow>
               if max_workers < 0
               then Some (Inl (Propagated (Exc ValueError ''Semaphore initial value must be >= 0'')),
                          [MkDir out_root])
               else (case iter_files_recursive (path_match w) (os_sep w) src_root (rglob w) excludes of
                       Inl e \<Rightarrow> Some (Inl (Propagated e), [MkDir out_root])
                     | Inr files \<Rightarrow>
                         if files = [] then Some (Inr NoFiles, [MkDir out_root])
                         else (case gather w files out_root max_workers retries delay skip_locked of
                                 None \<Rightarrow> None
                               | Some tasks \<Rightarrow>
                                   (let results = map fst tasks;
                                        ok = length (filter (\<lambda>(s, r). s) results);
                                        locked = length (filter (\<lambda>(s, r). \<not> s \<and> r = Some ''locked'') results);
                                        failed = length (filter (\<lambda>(s, r). \<not> s \<and> r = Some ''error'') results)
                                    in Some (Inr (Summary ok locked failed),
                                             MkDir out_root # map CreateTask files @ concat (map snd tasks))))))"

text \<open>
  A small world for the examples: the tree of the spec's end-to-end scenario (\<open>a.txt\<close>,
  \<open>b.TXT\<close>, \<open>c\<close> and \<open>skip/d.log\<close>, with the directory \<open>skip\<close> itself) on a POSIX system,
  an empty destination and a copy primitive that succeeds. \<open>demo_match\<close> answers for the
  one pattern \<open>skip/*\<close> as \<open>Path.match\<close> does: the pattern is relative, so it is matched
  from the right, against the last two components of the path; it rejects the empty
  pattern. \<open>demo_lower\<close> lower-cases the ASCII letters and the letter E with an acute accent
  (bytes \<open>C3 89\<close>, lower case \<open>C3 A9\<close>). \<open>windows_world\<close> is the same tree where the path
  separator is the backslash. \<open>stubborn_world\<close> differs from \<open>demo_world\<close> in one file: the
  bucket of \<open>c\<close> cannot be created.
\<close>

fun split_slash :: "string \<Rightarrow> string list" where
  "split_slash [] = [[]]"
| "split_slash (c # s) =
     (if c = CHR ''/'' then [] # split_slash s
      else (case split_slash s of [] \<Rightarrow> [[c]] | x # xs \<Rightarrow> (c # x) # xs))"

definition demo_match :: "string \<Rightarrow> string \<Rightarrow> exc + bool" where
  "demo_match rel pat =
     (if pat = [] then Inl (Exc ValueError ''empty pattern'')
      else Inr (pat = ''skip/*'' \<and>
                (case rev (filter (\<lambda>x. x \<noteq> []) (split_slash rel)) of
                   last_part # parent # rest \<Rightarrow> parent = ''skip''
                 | _ \<Rightarrow> False)))"

fun demo_lower :: "string \<Rightarrow> string" where
  "demo_lower (a # b # s) =
     (if a = CHR 0xC3 \<and> b = CHR 0x89 then CHR 0xC3 # CHR 0xA9 # demo_lower s
      else ascii_lower a # demo_lower (b # s))"
| "demo_lower s = map ascii_lower s"

definition quiet_task :: task_env where
  "quiet_task = \<lparr>mkdir_error = None, naming_error = None, existing = [], copy_calls = (\<lambda>k. Copied)\<rparr>"

definition demo_world :: world where
  "demo_world =
     \<lparr>src_exists = True, src_is_dir = True, out_root_mkdir_error = None,
      rglob = [([''a.txt''], True), ([''b.TXT''], True), ([''c''], True), ([''skip''], False),
               ([''skip'', ''d.log''], True)],
      path_match = demo_match, os_sep = CHR ''/'', unicode_lower = demo_lower,
      task_env_of = (\<lambda>f. quiet_task)\<rparr>"

definition windows_world :: world where
  "windows_world = demo_world\<lparr>os_sep := CHR 0x5C\<rparr>"


definition missing_world :: world where
  "missing_world = demo_world\<lparr>src_exists := False, src_is_dir := False\<rparr>"

text \<open>
  The effects of a run over \<open>demo_world\<close>, or over \<open>windows_world\<close>, with the pattern
  \<open>skip/*\<close>, four permits and a destination \<open>out\<close>.
\<close>

definition demo_events :: "event list" where
  "demo_events =
     [MkDir [''out''],
      CreateTask [''src'', ''a.txt''], CreateTask [''src'', ''b.TXT''], CreateTask [''src'', ''c''],
      MkDir [''out'', ''txt''], CopyAttempt [''src'', ''a.txt''] [''out'', ''txt'', ''a.txt''],
      MkDir [''out'', ''txt''], CopyAttempt [''src'', ''b.TXT''] [''out'', ''txt'', ''b.TXT''],
      MkDir [''out'', ''no_extension''], CopyAttempt [''src'', ''c''] [''out'', ''no_extension'', ''c'']]"

section \<open>The tasks under the event loop\<close>

text \<open>
  The interleaving of the tasks that \<open>read_folder\<close> creates, one per file, each running
  \<open>copy_file\<close>. A task is \<open>Created\<close> until its \<open>_mkdir_async\<close> returns, then \<open>Made_dir\<close>
  until \<open>_unique_target_path\<close> returns, then \<open>Named\<close> while it waits at \<open>async with sem\<close>,
  then \<open>Copying\<close> while it is inside \<open>copy_with_retries\<close> holding a permit, and \<open>Finished\<close>
  once \<open>copy_file\<close> has returned. An exception in \<open>_mkdir_async\<close> or in the naming takes the
  task to the \<open>except\<close> clause and so to \<open>Finished\<close>. \<open>asyncio.Semaphore\<close> is its counter:
  entering \<open>async with sem\<close> needs a positive counter and decrements it, leaving the block
  increments it. The event loop may advance any task that can move; \<open>start\<close> is the state
  after the loop of \<open>create_task\<close> for \<open>m\<close> files with \<open>Semaphore(max_workers)\<close>.
\<close>

datatype phase = Created | Made_dir | Named | Copying | Finished

record sched =
  phases :: "phase list"
  permits :: nat

definition advance :: "sched \<Rightarrow> nat \<Rightarrow> phase \<Rightarrow> sched" where
  "advance s i p = s\<lparr>phases := (phases s)[i := p]\<rparr>"

inductive step :: "sched \<Rightarrow> sched \<Rightarrow> bool" where
  mkdir_done: "i < length (phases s) \<Longrightarrow> phases s ! i = Created \<Longrightarrow> step s (advance s i Made_dir)"
| mkdir_raised: "i < length (phases s) \<Longrightarrow> phases s ! i = Created \<Longrightarrow> step s (advance s i Finished)"
| naming_done: "i < length (phases s) \<Longrightarrow> phases s ! i = Made_dir \<Longrightarrow> step s (advance s i Named)"
| naming_raised: "i < length (phases s) \<Longrightarrow> phases s ! i = Made_dir \<Longrightarrow> step s (advance s i Finished)"
| acquire: "i < length (phases s) \<Longrightarrow> phases s ! i = Named \<Longrightarrow> 0 < permits s \<Longrightarrow>
     step s ((advance s i Copying)\<lparr>permits := permits s - 1\<rparr>)"
| release: "i < length (phases s) \<Longrightarrow> phases s ! i = Copying \<Longrightarrow>
     step s ((advance s i Finished)\<lparr>permits := permits s + 1\<rparr>)"

definition start :: "nat \<Rightarrow> nat \<Rightarrow> sched" where
  "start max_workers m = \<lparr>phases = replicate m Created, permits = max_workers\<rparr>"

inductive reachable :: "nat \<Rightarrow> nat \<Rightarrow> sched \<Rightarrow> bool" for max_workers m where
  initial: "reachable max_workers m (start max_workers m)"
| later: "reachable max_workers m s \<Longrightarrow> step s s' \<Longrightarrow> reachable max_workers m s'"

definition copying :: "sched \<Rightarrow> nat" where
  "copying s = length (filter (\<lambda>p. p = Copying) (phases s))"


section \<open>The extension classifier\<close>


lemma lower_ascii: "list_all is_ascii s \<Longrightarrow> lower ul s = map ascii_lower s"
  by (simp add: lower_def)



lemma rfind_last: "c \<notin> set e \<Longrightarrow> rfind c (s @ c # e) = int (length s)"
proof -
  assume a: "c \<notin> set e"
  have "takeWhile (\<lambda>x. x \<noteq> c) (rev e @ c # rev s) = takeWhile (\<lambda>x. x \<noteq> c) (rev e)"
    by (rule takeWhile_tail) simp
  also have "\<dots> = rev e"
    using a by (auto simp: takeWhile_eq_all_conv)
  finally show ?thesis
    by (simp add: rfind_def)
qed

lemma name_snoc: "name (d @ [n]) = n"
  by (simp add: name_def)


lemma stem_split:
  "CHR ''.'' \<notin> set e \<Longrightarrow> e \<noteq> [] \<Longrightarrow> s \<noteq> [] \<Longrightarrow> stem (d @ [s @ CHR ''.'' # e]) = s"
  by (cases e) (simp_all add: stem_def name_snoc rfind_last Let_def)





lemmas name_simps =
  ext_folder_name_def lstrip_def lower_def is_ascii_def ascii_lower_def suffix_def name_def
  rfind_def Let_def




section \<open>The retry loop\<close>

lemma copy_loop_Copied:
  "cp a = Copied \<Longrightarrow>
   copy_loop ul cp src dst R sl a b = ((True, None), [CopyAttempt src dst])"
  by (subst copy_loop.simps) simp

lemma copy_loop_locked:
  "cp a = Raised e \<Longrightarrow> is_locked_error ul e \<Longrightarrow> sl \<Longrightarrow>
   copy_loop ul cp src dst R sl a b = ((False, Some ''locked''), [CopyAttempt src dst])"
  by (subst copy_loop.simps) simp

lemma copy_loop_exhausted:
  "cp a = Raised e \<Longrightarrow> \<not> (is_locked_error ul e \<and> sl) \<Longrightarrow> R < int (a + 1) \<Longrightarrow>
   copy_loop ul cp src dst R sl a b = ((False, Some ''error''), [CopyAttempt src dst])"
  by (subst copy_loop.simps) simp

lemma copy_loop_retry:
  "cp a = Raised e \<Longrightarrow> \<not> (is_locked_error ul e \<and> sl) \<Longrightarrow> int (a + 1) \<le> R \<Longrightarrow>
   copy_loop ul cp src dst R sl a b =
     (fst (copy_loop ul cp src dst R sl (a + 1) (b * 2)),
      CopyAttempt src dst # Sleep b # snd (copy_loop ul cp src dst R sl (a + 1) (b * 2)))"
  by (subst copy_loop.simps) (simp add: split_beta)

lemma doubling_Cons: "b # map (\<lambda>k. b * 2 * 2 ^ k) [0..<n] = map (\<lambda>k. b * (2::real) ^ k) [0..<Suc n]"
proof -
  have "[0..<Suc n] = 0 # map Suc [0..<n]"
    by (simp add: upt_conv_Cons map_Suc_upt del: upt_Suc)
  then show ?thesis
    by (simp add: comp_def mult.assoc del: upt_Suc)
qed


lemma waits_copy_loop:
  "waits (snd (copy_loop ul copy2 src dst R sl a b)) =
   map (\<lambda>k. b * 2 ^ k) [0..<length (waits (snd (copy_loop ul copy2 src dst R sl a b)))]"
proof (induction ul copy2 src dst R sl a b rule: copy_loop.induct)
  case (1 ul copy2 src dst R sl a b)
  show ?case
  proof (cases "copy2 a")
    case Copied
    then show ?thesis by (simp add: copy_loop_Copied)
  next
    case (Raised e)
    show ?thesis
    proof (cases "is_locked_error ul e \<and> sl")
      case True
      with Raised show ?thesis by (simp add: copy_loop_locked)
    next
      case nl: False
      show ?thesis
      proof (cases "R < int (a + 1)")
        case True
        from copy_loop_exhausted [where cp = copy2 and a = a, OF Raised nl True] show ?thesis by simp
      next
        case False
        then have le: "int (a + 1) \<le> R" by simp
        have IH: "waits (snd (copy_loop ul copy2 src dst R sl (a + 1) (b * 2))) =
           map (\<lambda>k. b * 2 * 2 ^ k) [0..<length (waits (snd (copy_loop ul copy2 src dst R sl (a + 1) (b * 2))))]"
          using "1.IH" [OF Raised nl] False by simp
        show ?thesis
          unfolding copy_loop_retry [where cp = copy2 and a = a, OF Raised nl le]
          using IH doubling_Cons [of b "length (waits (snd (copy_loop ul copy2 src dst R sl (a + 1) (b * 2))))"]
          by (simp del: upt_Suc)
      qed
    qed
  qed
qed



text \<open>
  Claim C3. With the skip-locked flag set, a copy attempt that raises a failure classified
  as locked ends the loop at once, whatever the number of earlier failures \<open>a\<close>, the retry
  count \<open>R\<close> and the current delay: the result is \<open>(False, "locked")\<close>, and that call of the
  copy primitive is the last effect (no further attempt and no wait). When it is the first
  attempt, the whole of \<open>copy_with_retries\<close> is that one attempt.
\<close>

theorem skip_locked_short_circuit:
  assumes "skip_locked" and "copy2 a = Raised e" and "is_locked_error ul e"
  shows "copy_loop ul copy2 src dst R skip_locked a b = ((False, Some ''locked''), [CopyAttempt src dst])
    \<and> (a = 0 \<longrightarrow> copy_with_retries ul copy2 src dst R delay skip_locked =
          ((False, Some ''locked''), [CopyAttempt src dst]))"
proof -
  have "copy_loop ul copy2 src dst R skip_locked a b' = ((False, Some ''locked''), [CopyAttempt src dst])"
    for b'
    using assms(2,3,1) by (rule copy_loop_locked)
  then show ?thesis
    by (auto simp: copy_with_retries_def)
qed

text \<open>C3 on a Windows sharing violation, with five retries allowed.\<close>

theorem skip_locked_short_circuit_witness:
  "copy_with_retries demo_lower
     (\<lambda>k. Raised (Exc PermissionError ''[WinError 32] The process cannot access the file''))
     [''src'', ''a.txt''] [''out'', ''txt'', ''a.txt''] 5 (1 / 2) True =
   ((False, Some ''locked''), [CopyAttempt [''src'', ''a.txt''] [''out'', ''txt'', ''a.txt'']])"
  using skip_locked_short_circuit [of True
      "\<lambda>k. Raised (Exc PermissionError ''[WinError 32] The process cannot access the file'')" 0
      "Exc PermissionError ''[WinError 32] The process cannot access the file''" demo_lower
      "[''src'', ''a.txt'']" "[''out'', ''txt'', ''a.txt'']" 5 "max 0 (1 / 2)" "1 / 2"]
  by (simp add: is_locked_error_def)

text \<open>
  Claim C4. With \<open>retries = 2\<close> and \<open>retry_delay = 1.0\<close>, a copy primitive that fails twice (with
  failures that are not skipped as locked) and then succeeds is called exactly three times,
  with a wait of 1 and then a wait of 2 between the calls, and the result is \<open>(True, None)\<close>.
\<close>

theorem backoff_schedule:
  assumes "copy2 0 = Raised e0" and "\<not> (is_locked_error ul e0 \<and> skip_locked)"
    and "copy2 1 = Raised e1" and "\<not> (is_locked_error ul e1 \<and> skip_locked)"
    and "copy2 2 = Copied"
  shows "copy_with_retries ul copy2 src dst 2 1 skip_locked =
    ((True, None),
     [CopyAttempt src dst, Sleep 1, CopyAttempt src dst, Sleep 2, CopyAttempt src dst])"
proof -
  have c1: "copy2 (Suc 0) = Raised e1"
    using assms(3) by simp
  have c2: "copy2 (Suc (Suc 0)) = Copied"
    using assms(5) by (simp add: numeral_2_eq_2)
  have 2: "copy_loop ul copy2 src dst 2 skip_locked (Suc (Suc 0)) 4 = ((True, None), [CopyAttempt src dst])"
    using c2 by (rule copy_loop_Copied)
  have 1: "copy_loop ul copy2 src dst 2 skip_locked (Suc 0) 2 =
      ((True, None), [CopyAttempt src dst, Sleep 2, CopyAttempt src dst])"
    using copy_loop_retry [where cp = copy2 and a = "Suc 0" and R = 2 and b = 2, OF c1 assms(4)] 2
    by simp
  have 0: "copy_loop ul copy2 src dst 2 skip_locked 0 1 =
      ((True, None), [CopyAttempt src dst, Sleep 1, CopyAttempt src dst, Sleep 2, CopyAttempt src dst])"
    using copy_loop_retry [where cp = copy2 and a = 0 and R = 2 and b = 1, OF assms(1) assms(2)] 1
    by simp
  then show ?thesis
    by (simp add: copy_with_retries_def)
qed

text \<open>C4 on a copy primitive that raises an I/O error twice.\<close>

theorem backoff_schedule_witness:
  "copy_with_retries demo_lower (\<lambda>k. if k < 2 then Raised (Exc OtherError ''Input/output error'') else Copied)
     [''src'', ''a.txt''] [''out'', ''txt'', ''a.txt''] 2 1 False =
   ((True, None),
    [CopyAttempt [''src'', ''a.txt''] [''out'', ''txt'', ''a.txt''], Sleep 1,
     CopyAttempt [''src'', ''a.txt''] [''out'', ''txt'', ''a.txt''], Sleep 2,
     CopyAttempt [''src'', ''a.txt''] [''out'', ''txt'', ''a.txt'']])"
  using backoff_schedule [of "\<lambda>k. if k < 2 then Raised (Exc OtherError ''Input/output error'') else Copied"
      "Exc OtherError ''Input/output error''" demo_lower False "Exc OtherError ''Input/output error''"
      "[''src'', ''a.txt'']" "[''out'', ''txt'', ''a.txt'']"]
  by simp

text \<open>
  Claim C10. For every initial delay, the first wait of \<open>copy_with_retries\<close> is
  \<open>max(0.0, delay)\<close> and every later wait is twice the one before; so with a delay of at
  most 0 every wait is 0, and no wait is ever negative.
\<close>

theorem backoff_clamp:
  "(waits (snd (copy_with_retries ul copy2 src dst R delay skip_locked)) \<noteq> [] \<longrightarrow>
      hd (waits (snd (copy_with_retries ul copy2 src dst R delay skip_locked))) = max 0 delay)
   \<and> (\<forall>i. Suc i < length (waits (snd (copy_with_retries ul copy2 src dst R delay skip_locked))) \<longrightarrow>
        waits (snd (copy_with_retries ul copy2 src dst R delay skip_locked)) ! Suc i =
        2 * waits (snd (copy_with_retries ul copy2 src dst R delay skip_locked)) ! i)
   \<and> (delay \<le> 0 \<longrightarrow>
        (\<forall>w \<in> set (waits (snd (copy_with_retries ul copy2 src dst R delay skip_locked))). w = 0))
   \<and> (\<forall>w \<in> set (waits (snd (copy_with_retries ul copy2 src dst R delay skip_locked))). 0 \<le> w)"
proof -
  define ws where "ws = waits (snd (copy_with_retries ul copy2 src dst R delay skip_locked))"
  have ws: "ws = map (\<lambda>k. max 0 delay * 2 ^ k) [0..<length ws]"
    unfolding ws_def copy_with_retries_def by (rule waits_copy_loop)
  have nth: "ws ! i = max 0 delay * 2 ^ i" if "i < length ws" for i
  proof -
    have "ws ! i = map (\<lambda>k. max 0 delay * 2 ^ k) [0..<length ws] ! i"
      using ws by simp
    also have "\<dots> = max 0 delay * 2 ^ i"
      using that by simp
    finally show ?thesis .
  qed
  have a: "hd ws = max 0 delay" if "ws \<noteq> []"
    using that nth [of 0] by (simp add: hd_conv_nth)
  have b: "ws ! Suc i = 2 * ws ! i" if "Suc i < length ws" for i
    using that nth [of i] nth [of "Suc i"] by simp
  have c: "w = 0" if "delay \<le> 0" "w \<in> set ws" for w
    using that nth by (auto simp: in_set_conv_nth)
  have d: "0 \<le> w" if "w \<in> set ws" for w
    using that nth by (auto simp: in_set_conv_nth)
  from a b c d show ?thesis
    unfolding ws_def by blast
qed

text \<open>C10 with an initial delay of \<open>-3\<close> (both waits are 0) and of \<open>0.5\<close>.\<close>

theorem backoff_clamp_witness:
  "hd (waits (snd (copy_with_retries demo_lower (\<lambda>k. Raised (Exc OtherError ''Input/output error''))
          [''src'', ''a.txt''] [''out'', ''txt'', ''a.txt''] 2 (- 3) False))) = 0
   \<and> waits (snd (copy_with_retries demo_lower (\<lambda>k. Raised (Exc OtherError ''Input/output error''))
          [''src'', ''a.txt''] [''out'', ''txt'', ''a.txt''] 2 (- 3) False)) = [0, 0]
   \<and> waits (snd (copy_with_retries demo_lower (\<lambda>k. Raised (Exc OtherError ''Input/output error''))
          [''src'', ''a.txt''] [''out'', ''txt'', ''a.txt''] 2 (1 / 2) False)) = [1 / 2, 1]"
  using backoff_clamp [of demo_lower "\<lambda>k. Raised (Exc OtherError ''Input/output error'')"
      "[''src'', ''a.txt'']" "[''out'', ''txt'', ''a.txt'']" 2 "- 3" False]
    backoff_clamp [of demo_lower "\<lambda>k. Raised (Exc OtherError ''Input/output error'')"
      "[''src'', ''a.txt'']" "[''out'', ''txt'', ''a.txt'']" 2 "1 / 2" False]
  by (simp add: copy_with_retries_def copy_loop.simps is_locked_error_def)


section \<open>The destination namer\<close>











section \<open>Traversal, tasks and the run\<close>

lemma replace_backslash_clean: "CHR 0x5C \<notin> set (replace_backslash s)"
  by (auto simp: replace_backslash_def)

lemma replace_backslash_append:
  "replace_backslash (a @ b) = replace_backslash a @ replace_backslash b"
  by (simp add: replace_backslash_def)

lemma replace_backslash_id: "CHR 0x5C \<notin> set s \<Longrightarrow> replace_backslash s = s"
  by (induction s) (auto simp: replace_backslash_def)

lemma replace_backslash_path_str:
  "sep = CHR ''/'' \<or> sep = CHR 0x5C \<Longrightarrow>
   replace_backslash (path_str sep rel) = path_str (CHR ''/'') (map replace_backslash rel)"
proof (induction sep rel rule: path_str.induct)
  case (1 sep)
  show ?case by (simp add: replace_backslash_def)
next
  case (2 sep x)
  show ?case by simp
next
  case (3 sep x y ys)
  have "replace_backslash [sep] = ''/''"
    using "3.prems" by (auto simp: replace_backslash_def)
  with "3.IH" [OF "3.prems"] show ?case
    using replace_backslash_append [of x "sep # path_str sep (y # ys)"]
      replace_backslash_append [of "[sep]" "path_str sep (y # ys)"]
    by simp
qed

lemma excluded_by_False:
  "excluded_by pm rel ex = Inr False \<Longrightarrow> \<forall>pat \<in> set ex. pm rel pat \<noteq> Inr True"
  by (induction ex) (auto split: sum.splits if_splits)

lemma excluded_by_True:
  "excluded_by pm rel ex = Inr True \<Longrightarrow> \<exists>pat \<in> set ex. pm rel pat = Inr True"
  by (induction ex) (auto split: sum.splits if_splits)

lemma iter_files_sound:
  "iter_files_recursive pm sep r entries ex = Inr files \<Longrightarrow> p \<in> set files \<Longrightarrow>
   \<exists>rel. p = r @ rel \<and> (rel, True) \<in> set entries \<and>
         \<not> (\<exists>pat \<in> set ex. pm (replace_backslash (path_str sep rel)) pat = Inr True)"
proof (induction entries arbitrary: files)
  case Nil
  then show ?case by simp
next
  case (Cons en ps)
  obtain rel f where en: "en = (rel, f)" by (cases en)
  note F = excluded_by_False [of pm "replace_backslash (path_str sep rel)" ex]
  from Cons.prems Cons.IH F show ?case
    unfolding en
    by (auto split: if_splits sum.splits)
qed

lemma iter_files_complete:
  "iter_files_recursive pm sep r entries ex = Inr files \<Longrightarrow> (rel, True) \<in> set entries \<Longrightarrow>
   \<not> (\<exists>pat \<in> set ex. pm (replace_backslash (path_str sep rel)) pat = Inr True) \<Longrightarrow>
   r @ rel \<in> set files"
proof (induction entries arbitrary: files)
  case Nil
  then show ?case by simp
next
  case (Cons en ps)
  obtain rel' f where en: "en = (rel', f)" by (cases en)
  note T = excluded_by_True [of pm "replace_backslash (path_str sep rel')" ex]
  from Cons.prems Cons.IH T show ?case
    unfolding en
    by (auto split: if_splits sum.splits)
qed

lemma iter_files_iff:
  assumes "iter_files_recursive pm sep r entries ex = Inr files" and "(rel, True) \<in> set entries"
  shows "r @ rel \<in> set files \<longleftrightarrow>
    \<not> (\<exists>pat \<in> set ex. pm (replace_backslash (path_str sep rel)) pat = Inr True)"
proof
  assume "r @ rel \<in> set files"
  from iter_files_sound [OF assms(1) this] show
    "\<not> (\<exists>pat \<in> set ex. pm (replace_backslash (path_str sep rel)) pat = Inr True)"
    by auto
next
  assume "\<not> (\<exists>pat \<in> set ex. pm (replace_backslash (path_str sep rel)) pat = Inr True)"
  with assms show "r @ rel \<in> set files" by (rule iter_files_complete)
qed

lemma copy_loop_events:
  "e \<in> set (snd (copy_loop ul cp src dst R sl a b)) \<Longrightarrow> e = CopyAttempt src dst \<or> (\<exists>t. e = Sleep t)"
proof (induction ul cp src dst R sl a b rule: copy_loop.induct)
  case (1 ul cp src dst R sl a b)
  show ?case
  proof (cases "cp a")
    case Copied
    with "1.prems" show ?thesis by (simp add: copy_loop_Copied)
  next
    case (Raised x)
    show ?thesis
    proof (cases "is_locked_error ul x \<and> sl")
      case True
      with Raised "1.prems" show ?thesis by (simp add: copy_loop_locked)
    next
      case nl: False
      show ?thesis
      proof (cases "R < int (a + 1)")
        case True
        from copy_loop_exhausted [where cp = cp and a = a, OF Raised nl True] "1.prems"
        show ?thesis by simp
      next
        case False
        then have le: "int (a + 1) \<le> R" by simp
        from "1.prems" have "e = CopyAttempt src dst \<or> e = Sleep b \<or>
            e \<in> set (snd (copy_loop ul cp src dst R sl (a + 1) (b * 2)))"
          unfolding copy_loop_retry [where cp = cp and a = a, OF Raised nl le] by auto
        with "1.IH" [OF Raised nl] False show ?thesis by auto
      qed
    qed
  qed
qed




lemma copy_file_cases:
  assumes "copy_file ul env src out sem R d sl = Some (r, evs)"
  shows "(r = (False, Some ''error'') \<and> evs = [MkDir (joinpath out (ext_folder_name ul src))]) \<or>
    (\<exists>t es. mkdir_error env = None \<and> naming_error env = None \<and> 0 < sem \<and>
       copy_with_retries ul (copy_calls env) src t R d sl = (r, es) \<and>
       evs = MkDir (joinpath out (ext_folder_name ul src)) # es)"
  using assms
  by (auto simp: copy_file_def Let_def split: option.splits prod.splits if_splits)



lemma copy_file_events:
  assumes "copy_file ul env src out sem R d sl = Some (r, evs)" and "e \<in> set evs"
  shows "(\<exists>dir. e = MkDir dir) \<or> (\<exists>dst. e = CopyAttempt src dst) \<or> (\<exists>t. e = Sleep t)"
proof -
  from copy_file_cases [OF assms(1)] show ?thesis
  proof
    assume "r = (False, Some ''error'') \<and> evs = [MkDir (joinpath out (ext_folder_name ul src))]"
    with assms(2) show ?thesis by simp
  next
    assume "\<exists>t es. mkdir_error env = None \<and> naming_error env = None \<and> 0 < sem \<and>
       copy_with_retries ul (copy_calls env) src t R d sl = (r, es) \<and>
       evs = MkDir (joinpath out (ext_folder_name ul src)) # es"
    then obtain t es where "copy_with_retries ul (copy_calls env) src t R d sl = (r, es)"
      and "evs = MkDir (joinpath out (ext_folder_name ul src)) # es"
      by blast
    then have "evs = MkDir (joinpath out (ext_folder_name ul src)) #
        snd (copy_loop ul (copy_calls env) src t R sl 0 (max 0 d))"
      by (simp add: copy_with_retries_def)
    with assms(2) have "e = MkDir (joinpath out (ext_folder_name ul src)) \<or>
        e \<in> set (snd (copy_loop ul (copy_calls env) src t R sl 0 (max 0 d)))"
      by simp
    then show ?thesis
      using copy_loop_events [of e ul "copy_calls env" src t R sl 0 "max 0 d"] by blast
  qed
qed

lemma those_Some: "those xs = Some ys \<longleftrightarrow> xs = map Some ys"
  by (induction xs arbitrary: ys) (auto split: option.splits)

lemma gather_Some:
  assumes "gather w files out sem R d sl = Some tasks"
  shows "length tasks = length files"
    and "i < length files \<Longrightarrow>
         copy_file (unicode_lower w) (task_env_of w (files ! i)) (files ! i) out sem R d sl = Some (tasks ! i)"
proof -
  let ?F = "\<lambda>f. copy_file (unicode_lower w) (task_env_of w f) f out sem R d sl"
  from assms have eq: "map ?F files = map Some tasks"
    unfolding gather_def those_Some .
  have "length (map ?F files) = length (map Some tasks)"
    by (simp only: eq)
  then show len: "length tasks = length files"
    by (simp only: length_map)
  show "?F (files ! i) = Some (tasks ! i)" if "i < length files"
  proof -
    have "map ?F files ! i = map Some tasks ! i"
      by (simp only: eq)
    moreover have "map ?F files ! i = ?F (files ! i)"
      using that by (rule nth_map)
    moreover have "map Some tasks ! i = Some (tasks ! i)"
      using that len by (intro nth_map) simp
    ultimately show ?thesis by (simp only:)
  qed
qed



lemma task_events:
  assumes "gather w files out sem R d sl = Some tasks" and "t \<in> set tasks" and "e \<in> set (snd t)"
  shows "(\<exists>dir. e = MkDir dir) \<or> (\<exists>f \<in> set files. \<exists>dst. e = CopyAttempt f dst) \<or> (\<exists>u. e = Sleep u)"
proof -
  from assms(2) obtain i where i: "i < length tasks" "t = tasks ! i"
    by (auto simp: in_set_conv_nth)
  with gather_Some [OF assms(1)] have il: "i < length files"
    and "copy_file (unicode_lower w) (task_env_of w (files ! i)) (files ! i) out sem R d sl = Some (fst t, snd t)"
    by simp_all
  from copy_file_events [OF this(2) assms(3)] il show ?thesis
    by (metis nth_mem)
qed

lemma read_folder_Summary:
  assumes "src_exists w" and "src_is_dir w" and "out_root_mkdir_error w = None"
    and "0 \<le> max_workers"
    and "iter_files_recursive (path_match w) (os_sep w) src_root (rglob w) excludes = Inr files"
    and "files \<noteq> []"
    and "gather w files out_root max_workers retries delay skip_locked = Some tasks"
  shows "read_folder w src_root out_root max_workers retries delay skip_locked excludes =
    Some (Inr (Summary (length (filter (\<lambda>(s, r). s) (map fst tasks)))
                  (length (filter (\<lambda>(s, r). \<not> s \<and> r = Some ''locked'') (map fst tasks)))
                  (length (filter (\<lambda>(s, r). \<not> s \<and> r = Some ''error'') (map fst tasks)))),
          MkDir out_root # map CreateTask files @ concat (map snd tasks))"
  using assms by (simp add: read_folder_def Let_def)

lemma read_folder_finished:
  assumes "read_folder w src_root out_root max_workers retries delay skip_locked excludes =
      Some (Inr rep, evs)"
  shows "\<exists>files. iter_files_recursive (path_match w) (os_sep w) src_root (rglob w) excludes = Inr files
    \<and> (files = [] \<and> evs = [MkDir out_root] \<or>
       (\<exists>tasks. gather w files out_root max_workers retries delay skip_locked = Some tasks \<and>
          evs = MkDir out_root # map CreateTask files @ concat (map snd tasks)))"
  using assms
  by (auto simp: read_folder_def Let_def split: if_splits option.splits sum.splits)

lemma read_folder_tasks:
  assumes "read_folder w src_root out_root max_workers retries delay skip_locked excludes =
      Some (Inr rep, evs)"
  shows "\<exists>files. iter_files_recursive (path_match w) (os_sep w) src_root (rglob w) excludes = Inr files
    \<and> (\<forall>p. CreateTask p \<in> set evs \<longleftrightarrow> p \<in> set files)
    \<and> (\<forall>p dst. CopyAttempt p dst \<in> set evs \<longrightarrow> p \<in> set files)"
proof -
  from read_folder_finished [OF assms] obtain files where
    it: "iter_files_recursive (path_match w) (os_sep w) src_root (rglob w) excludes = Inr files"
    and ev: "files = [] \<and> evs = [MkDir out_root] \<or>
       (\<exists>tasks. gather w files out_root max_workers retries delay skip_locked = Some tasks \<and>
          evs = MkDir out_root # map CreateTask files @ concat (map snd tasks))"
    by blast
  from ev have "(\<forall>p. CreateTask p \<in> set evs \<longleftrightarrow> p \<in> set files)
    \<and> (\<forall>p dst. CopyAttempt p dst \<in> set evs \<longrightarrow> p \<in> set files)"
  proof
    assume "files = [] \<and> evs = [MkDir out_root]"
    then show ?thesis by simp
  next
    assume "\<exists>tasks. gather w files out_root max_workers retries delay skip_locked = Some tasks \<and>
          evs = MkDir out_root # map CreateTask files @ concat (map snd tasks)"
    then obtain tasks where g: "gather w files out_root max_workers retries delay skip_locked = Some tasks"
      and evs: "evs = MkDir out_root # map CreateTask files @ concat (map snd tasks)"
      by blast
    have a: "p \<in> set files" if "CreateTask p \<in> set (concat (map snd tasks))" for p
      using that task_events [OF g] by fastforce
    have b: "p \<in> set files" if "CopyAttempt p dst \<in> set (concat (map snd tasks))" for p dst
      using that task_events [OF g] by fastforce
    show ?thesis
      unfolding evs using a b by auto
  qed
  with it show ?thesis by blast
qed

lemma quiet_copy_file:
  "0 < sem \<Longrightarrow> copy_file ul quiet_task src out sem R d sl =
     Some ((True, None),
           [MkDir (joinpath out (ext_folder_name ul src)),
            CopyAttempt src (joinpath (joinpath out (ext_folder_name ul src)) (name src))])"
  by (simp add: copy_file_def quiet_task_def unique_target_path_def copy_with_retries_def
      copy_loop_Copied Let_def)


lemma demo_dirs:
  "joinpath [''out''] (ext_folder_name demo_lower [''src'', ''a.txt'']) = [''out'', ''txt'']"
  "joinpath [''out''] (ext_folder_name demo_lower [''src'', ''b.TXT'']) = [''out'', ''txt'']"
  "joinpath [''out''] (ext_folder_name demo_lower [''src'', ''c'']) = [''out'', ''no_extension'']"
  "name [''src'', ''a.txt''] = ''a.txt''" "name [''src'', ''b.TXT''] = ''b.TXT''"
  "name [''src'', ''c''] = ''c''"
  by (simp_all add: joinpath_def name_simps)

lemma demo_files:
  "iter_files_recursive (path_match demo_world) (os_sep demo_world) [''src''] (rglob demo_world)
     [''skip/*''] = Inr [[''src'', ''a.txt''], [''src'', ''b.TXT''], [''src'', ''c'']]"
  by (simp add: demo_world_def demo_match_def replace_backslash_def)

lemma demo_gather:
  "gather demo_world [[''src'', ''a.txt''], [''src'', ''b.TXT''], [''src'', ''c'']] [''out''] 4 3 (1 / 2) False =
     Some [((True, None), [MkDir [''out'', ''txt''],
                           CopyAttempt [''src'', ''a.txt''] [''out'', ''txt'', ''a.txt'']]),
           ((True, None), [MkDir [''out'', ''txt''],
                           CopyAttempt [''src'', ''b.TXT''] [''out'', ''txt'', ''b.TXT'']]),
           ((True, None), [MkDir [''out'', ''no_extension''],
                           CopyAttempt [''src'', ''c''] [''out'', ''no_extension'', ''c'']])]"
  by (simp add: gather_def demo_world_def quiet_copy_file demo_dirs) (simp add: joinpath_def)

lemma demo_run:
  "read_folder demo_world [''src''] [''out''] 4 3 (1 / 2) False [''skip/*''] =
     Some (Inr (Summary 3 0 0), demo_events)"
proof -
  have h: "src_exists demo_world" "src_is_dir demo_world" "out_root_mkdir_error demo_world = None"
    "(0::int) \<le> 4"
    by (simp_all add: demo_world_def)
  have n: "[[''src'', ''a.txt''], [''src'', ''b.TXT''], [''src'', ''c'']] \<noteq> []" by simp
  show ?thesis
    unfolding read_folder_Summary [OF h demo_files n demo_gather] demo_events_def by simp
qed

lemma windows_files:
  "iter_files_recursive (path_match windows_world) (os_sep windows_world) [''src'']
     (rglob windows_world) [''skip/*''] =
     Inr [[''src'', ''a.txt''], [''src'', ''b.TXT''], [''src'', ''c'']]"
  by (simp add: windows_world_def demo_world_def demo_match_def replace_backslash_def)

lemma windows_gather:
  "gather windows_world [[''src'', ''a.txt''], [''src'', ''b.TXT''], [''src'', ''c'']] [''out''] 4 3 (1 / 2) False =
     Some [((True, None), [MkDir [''out'', ''txt''],
                           CopyAttempt [''src'', ''a.txt''] [''out'', ''txt'', ''a.txt'']]),
           ((True, None), [MkDir [''out'', ''txt''],
                           CopyAttempt [''src'', ''b.TXT''] [''out'', ''txt'', ''b.TXT'']]),
           ((True, None), [MkDir [''out'', ''no_extension''],
                           CopyAttempt [''src'', ''c''] [''out'', ''no_extension'', ''c'']])]"
  by (simp add: gather_def windows_world_def demo_world_def quiet_copy_file demo_dirs)
     (simp add: joinpath_def)

lemma windows_run:
  "read_folder windows_world [''src''] [''out''] 4 3 (1 / 2) False [''skip/*''] =
     Some (Inr (Summary 3 0 0), demo_events)"
proof -
  have h: "src_exists windows_world" "src_is_dir windows_world"
    "out_root_mkdir_error windows_world = None" "(0::int) \<le> 4"
    by (simp_all add: windows_world_def demo_world_def)
  have n: "[[''src'', ''a.txt''], [''src'', ''b.TXT''], [''src'', ''c'']] \<noteq> []" by simp
  show ?thesis
    unfolding read_folder_Summary [OF h windows_files n windows_gather] demo_events_def by simp
qed


lemma read_folder_effects:
  assumes "read_folder w src_root out_root max_workers retries delay skip_locked excludes =
      Some (ending, evs)"
    and "iter_files_recursive (path_match w) (os_sep w) src_root (rglob w) excludes = Inr files"
  shows "(CreateTask p \<in> set evs \<longrightarrow> p \<in> set files) \<and>
    (\<forall>dst. CopyAttempt p dst \<in> set evs \<longrightarrow> p \<in> set files)"
proof (cases ending)
  case (Inl x)
  with assms(1) have "evs = [] \<or> evs = [MkDir out_root]"
    by (auto simp: read_folder_def Let_def split: if_splits option.splits sum.splits)
  then show ?thesis by auto
next
  case (Inr rep)
  with assms(1) have "read_folder w src_root out_root max_workers retries delay skip_locked excludes =
      Some (Inr rep, evs)" by simp
  from read_folder_tasks [OF this] assms(2) show ?thesis by auto
qed

text \<open>
  Claim C6. Let the traversal complete with the list \<open>files\<close>, and take a file that
  \<open>rglob\<close> found under the source root, with relative path \<open>rel\<close>. The file is left out of
  \<open>files\<close> if and only if the string matched for it matches at least one pattern of the
  list, matching being \<open>Path.match\<close>; with an empty pattern list it is never left out. In
  every run that ends, no task is created and no copy is attempted for a file that is left
  out, so it has no outcome; in a run that ends normally, a task is created for every file
  that is not left out. The string matched holds no backslash: where the path separator is
  the slash or the backslash, it is the components of \<open>rel\<close> joined by slashes, each
  component with its own backslashes (if it has any) replaced by slashes.
\<close>

theorem exclusion_filter:
  assumes "iter_files_recursive (path_match w) (os_sep w) src_root (rglob w) excludes = Inr files"
    and "(rel, True) \<in> set (rglob w)"
  shows "(src_root @ rel \<notin> set files \<longleftrightarrow>
           (\<exists>pat \<in> set excludes. path_match w (replace_backslash (path_str (os_sep w) rel)) pat = Inr True))
    \<and> (excludes = [] \<longrightarrow> src_root @ rel \<in> set files)
    \<and> (\<forall>ending evs.
          read_folder w src_root out_root max_workers retries delay skip_locked excludes = Some (ending, evs)
          \<and> (\<exists>pat \<in> set excludes. path_match w (replace_backslash (path_str (os_sep w) rel)) pat = Inr True)
          \<longrightarrow> CreateTask (src_root @ rel) \<notin> set evs \<and> (\<forall>dst. CopyAttempt (src_root @ rel) dst \<notin> set evs))
    \<and> (\<forall>rep evs.
          read_folder w src_root out_root max_workers retries delay skip_locked excludes = Some (Inr rep, evs)
          \<and> \<not> (\<exists>pat \<in> set excludes. path_match w (replace_backslash (path_str (os_sep w) rel)) pat = Inr True)
          \<longrightarrow> CreateTask (src_root @ rel) \<in> set evs)
    \<and> CHR 0x5C \<notin> set (replace_backslash (path_str (os_sep w) rel))
    \<and> (os_sep w = CHR ''/'' \<or> os_sep w = CHR 0x5C \<longrightarrow>
          replace_backslash (path_str (os_sep w) rel) = path_str (CHR ''/'') (map replace_backslash rel))
    \<and> ((os_sep w = CHR ''/'' \<or> os_sep w = CHR 0x5C) \<and> (\<forall>c \<in> set rel. CHR 0x5C \<notin> set c) \<longrightarrow>
          replace_backslash (path_str (os_sep w) rel) = path_str (CHR ''/'') rel)"
proof -
  note iff = iter_files_iff [OF assms]
  from iff have 1: "src_root @ rel \<notin> set files \<longleftrightarrow>
      (\<exists>pat \<in> set excludes. path_match w (replace_backslash (path_str (os_sep w) rel)) pat = Inr True)"
    by blast
  from iff have 2: "excludes = [] \<longrightarrow> src_root @ rel \<in> set files"
    by auto
  have 3: "CreateTask (src_root @ rel) \<notin> set evs \<and> (\<forall>dst. CopyAttempt (src_root @ rel) dst \<notin> set evs)"
    if "read_folder w src_root out_root max_workers retries delay skip_locked excludes = Some (ending, evs)
      \<and> (\<exists>pat \<in> set excludes. path_match w (replace_backslash (path_str (os_sep w) rel)) pat = Inr True)"
    for ending evs
  proof -
    from that 1 have out: "src_root @ rel \<notin> set files" by blast
    from that read_folder_effects [OF _ assms(1)]
    have "\<forall>p. (CreateTask p \<in> set evs \<longrightarrow> p \<in> set files) \<and>
        (\<forall>dst. CopyAttempt p dst \<in> set evs \<longrightarrow> p \<in> set files)"
      by blast
    with out show ?thesis by blast
  qed
  have 4: "CreateTask (src_root @ rel) \<in> set evs"
    if "read_folder w src_root out_root max_workers retries delay skip_locked excludes = Some (Inr rep, evs)
      \<and> \<not> (\<exists>pat \<in> set excludes. path_match w (replace_backslash (path_str (os_sep w) rel)) pat = Inr True)"
    for rep evs
  proof -
    from that have run: "read_folder w src_root out_root max_workers retries delay skip_locked excludes =
        Some (Inr rep, evs)" by simp
    from read_folder_tasks [OF run] assms(1) have "\<forall>p. CreateTask p \<in> set evs \<longleftrightarrow> p \<in> set files"
      by auto
    with that iff show ?thesis by blast
  qed
  have 5: "CHR 0x5C \<notin> set (replace_backslash (path_str (os_sep w) rel))"
    by (rule replace_backslash_clean)
  have 6: "replace_backslash (path_str (os_sep w) rel) = path_str (CHR ''/'') (map replace_backslash rel)"
    if "os_sep w = CHR ''/'' \<or> os_sep w = CHR 0x5C"
    using that by (rule replace_backslash_path_str)
  have 7: "replace_backslash (path_str (os_sep w) rel) = path_str (CHR ''/'') rel"
    if "(os_sep w = CHR ''/'' \<or> os_sep w = CHR 0x5C) \<and> (\<forall>c \<in> set rel. CHR 0x5C \<notin> set c)"
  proof -
    from that have "map replace_backslash rel = rel"
      by (simp add: map_idI replace_backslash_id)
    with that 6 show ?thesis by simp
  qed
  from 1 2 3 4 5 6 7 show ?thesis by blast
qed

text \<open>
  C6 on the demo tree with the pattern \<open>skip/*\<close>, where the path separator is the backslash:
  \<open>str\<close> of the relative path of \<open>d.log\<close> is \<open>skip\<close>, a backslash and \<open>d.log\<close>; the string
  matched is \<open>skip/d.log\<close>, which matches, and the file gets neither a task nor a copy.
  \<open>a.txt\<close> does not match and gets a task. The same holds where the separator is the
  slash.
\<close>

theorem exclusion_filter_witness:
  "read_folder windows_world [''src''] [''out''] 4 3 (1 / 2) False [''skip/*''] =
     Some (Inr (Summary 3 0 0), demo_events)
   \<and> path_str (os_sep windows_world) [''skip'', ''d.log''] = ''skip'' @ [CHR 0x5C] @ ''d.log''
   \<and> replace_backslash (path_str (os_sep windows_world) [''skip'', ''d.log'']) = ''skip/d.log''
   \<and> path_match windows_world ''skip/d.log'' ''skip/*'' = Inr True
   \<and> CreateTask [''src'', ''skip'', ''d.log''] \<notin> set demo_events
   \<and> CopyAttempt [''src'', ''skip'', ''d.log''] [''out'', ''log'', ''d.log''] \<notin> set demo_events
   \<and> path_match windows_world (replace_backslash (path_str (os_sep windows_world) [''a.txt'']))
       ''skip/*'' = Inr False
   \<and> CreateTask [''src'', ''a.txt''] \<in> set demo_events
   \<and> read_folder demo_world [''src''] [''out''] 4 3 (1 / 2) False [''skip/*''] =
     Some (Inr (Summary 3 0 0), demo_events)
   \<and> replace_backslash (path_str (os_sep demo_world) [''skip'', ''d.log'']) = ''skip/d.log''"
proof -
  have d: "([''skip'', ''d.log''], True) \<in> set (rglob windows_world)"
    and a: "([''a.txt''], True) \<in> set (rglob windows_world)"
    and d': "([''skip'', ''d.log''], True) \<in> set (rglob demo_world)"
    by (simp_all add: windows_world_def demo_world_def)
  have sep: "os_sep windows_world = CHR 0x5C" "os_sep demo_world = CHR ''/''"
    by (simp_all add: windows_world_def demo_world_def)
  have m: "path_match windows_world ''skip/d.log'' ''skip/*'' = Inr True"
    "path_match windows_world ''a.txt'' ''skip/*'' = Inr False"
    by (simp_all add: windows_world_def demo_world_def demo_match_def)
  from exclusion_filter [OF windows_files d, of "[''out'']" 4 3 "1 / 2" False]
    exclusion_filter [OF windows_files a, of "[''out'']" 4 3 "1 / 2" False]
    exclusion_filter [OF demo_files d', of "[''out'']" 4 3 "1 / 2" False]
    sep m windows_run demo_run
  show ?thesis by (simp add: replace_backslash_def demo_events_def)
qed




text \<open>
  Claim C8. When the source root does not exist or is not a directory, \<open>read_folder\<close> raises
  \<open>FileNotFoundError\<close> with no effect before it: the destination root is not created, no
  task is created and no copy is attempted.
\<close>

theorem preflight_fails_fast:
  assumes "\<not> src_exists w \<or> \<not> src_is_dir w"
  shows "read_folder w src_root out_root max_workers retries delay skip_locked excludes =
    Some (Inl (FileNotFound src_root), [])"
  using assms by (auto simp: read_folder_def)

text \<open>C8 on a missing source root and on a source root that is not a directory.\<close>

theorem preflight_fails_fast_witness:
  "read_folder missing_world [''src''] [''out''] 4 3 (1 / 2) False [''skip/*''] =
     Some (Inl (FileNotFound [''src'']), [])
   \<and> read_folder (demo_world\<lparr>src_is_dir := False\<rparr>) [''src''] [''out''] 4 3 (1 / 2) False [''skip/*''] =
     Some (Inl (FileNotFound [''src'']), [])"
  using preflight_fails_fast [of missing_world "[''src'']" "[''out'']" 4 3 "1 / 2" False "[''skip/*'']"]
    preflight_fails_fast [of "demo_world\<lparr>src_is_dir := False\<rparr>" "[''src'']" "[''out'']" 4 3 "1 / 2" False
      "[''skip/*'']"]
  by (simp add: missing_world_def demo_world_def)


section \<open>The concurrency bound\<close>

lemma count_update:
  "i < length ps \<Longrightarrow>
   length (filter P (ps[i := x])) + (if P (ps ! i) then 1 else 0) =
   length (filter P ps) + (if P x then 1 else 0)"
proof (induction ps arbitrary: i)
  case Nil
  then show ?case by simp
next
  case (Cons p ps)
  show ?case
  proof (cases i)
    case 0
    then show ?thesis by simp
  next
    case (Suc j)
    with Cons.prems have "j < length ps" by simp
    from Cons.IH [OF this] Suc show ?thesis by simp
  qed
qed

lemma step_keeps_balance:
  assumes "step s s'"
  shows "copying s' + permits s' = copying s + permits s \<and> length (phases s') = length (phases s)"
  using assms
proof cases
  case (mkdir_done i)
  with count_update [of i "phases s" "\<lambda>p. p = Copying" Made_dir] show ?thesis
    by (simp add: copying_def advance_def)
next
  case (mkdir_raised i)
  with count_update [of i "phases s" "\<lambda>p. p = Copying" Finished] show ?thesis
    by (simp add: copying_def advance_def)
next
  case (naming_done i)
  with count_update [of i "phases s" "\<lambda>p. p = Copying" Named] show ?thesis
    by (simp add: copying_def advance_def)
next
  case (naming_raised i)
  with count_update [of i "phases s" "\<lambda>p. p = Copying" Finished] show ?thesis
    by (simp add: copying_def advance_def)
next
  case (acquire i)
  with count_update [of i "phases s" "\<lambda>p. p = Copying" Copying] show ?thesis
    by (simp add: copying_def advance_def)
next
  case (release i)
  with count_update [of i "phases s" "\<lambda>p. p = Copying" Finished] show ?thesis
    by (simp add: copying_def advance_def)
qed

lemma reachable_balance:
  "reachable n m s \<Longrightarrow> copying s + permits s = n \<and> length (phases s) = m"
proof (induction rule: reachable.induct)
  case initial
  show ?case by (simp add: start_def copying_def)
next
  case (later s s')
  with step_keeps_balance [of s s'] show ?case by simp
qed

text \<open>
  Claim C9. In every state the tasks can reach from \<open>m\<close> created tasks and a semaphore of
  \<open>max_workers\<close> permits, at most \<open>max_workers\<close> tasks are in their copy phase; the tasks
  in the copy phase are exactly the holders of the permits that are not free. A task that
  has not yet made its directory, or not yet chosen its target, can take that step
  whatever the number of free permits, and the step takes no permit. A step by which a
  task enters the copy phase needs a free permit and takes one.
\<close>

theorem concurrency_bound:
  assumes "reachable max_workers m s"
  shows "copying s \<le> max_workers
    \<and> copying s + permits s = max_workers
    \<and> length (phases s) = m
    \<and> (\<forall>i. i < length (phases s) \<and> phases s ! i = Created \<longrightarrow>
          step s (advance s i Made_dir) \<and> permits (advance s i Made_dir) = permits s)
    \<and> (\<forall>i. i < length (phases s) \<and> phases s ! i = Made_dir \<longrightarrow>
          step s (advance s i Named) \<and> permits (advance s i Named) = permits s)
    \<and> (\<forall>s'. step s s' \<and> copying s < copying s' \<longrightarrow> 0 < permits s \<and> permits s' = permits s - 1)"
proof -
  from reachable_balance [OF assms] have bal: "copying s + permits s = max_workers"
    and len: "length (phases s) = m" by simp_all
  have a: "step s (advance s i Made_dir) \<and> permits (advance s i Made_dir) = permits s"
    if "i < length (phases s) \<and> phases s ! i = Created" for i
    using that mkdir_done [of i s] by (auto simp: advance_def)
  have b: "step s (advance s i Named) \<and> permits (advance s i Named) = permits s"
    if "i < length (phases s) \<and> phases s ! i = Made_dir" for i
    using that naming_done [of i s] by (auto simp: advance_def)
  have c: "0 < permits s \<and> permits s' = permits s - 1" if "step s s' \<and> copying s < copying s'" for s'
  proof -
    from that have st: "step s s'" and gt: "copying s < copying s'" by simp_all
    from step_keeps_balance [OF st] have "copying s' + permits s' = copying s + permits s"
      by simp
    with gt have lt: "permits s' < permits s" by simp
    from st lt show ?thesis
      by cases (simp_all add: advance_def)
  qed
  from bal len a b c show ?thesis
    by (intro conjI allI impI) simp_all
qed

text \<open>
  C9 with one permit and two files: the first task is copying, and the second has made its
  directory and chosen its target while no permit was free.
\<close>

theorem concurrency_bound_witness:
  "reachable 1 2 \<lparr>phases = [Copying, Named], permits = 0\<rparr>
   \<and> copying \<lparr>phases = [Copying, Named], permits = 0\<rparr> = 1
   \<and> copying \<lparr>phases = [Copying, Named], permits = 0\<rparr> \<le> 1"
proof -
  have 0: "reachable 1 2 \<lparr>phases = [Created, Created], permits = 1\<rparr>"
    using initial [of 1 2] by (simp add: start_def numeral_2_eq_2)
  have 1: "reachable 1 2 \<lparr>phases = [Made_dir, Created], permits = 1\<rparr>"
    using later [OF 0 mkdir_done [of 0]] by (simp add: advance_def)
  have 2: "reachable 1 2 \<lparr>phases = [Named, Created], permits = 1\<rparr>"
    using later [OF 1 naming_done [of 0]] by (simp add: advance_def)
  have 3: "reachable 1 2 \<lparr>phases = [Copying, Created], permits = 0\<rparr>"
    using later [OF 2 acquire [of 0]] by (simp add: advance_def)
  have 4: "reachable 1 2 \<lparr>phases = [Copying, Made_dir], permits = 0\<rparr>"
    using later [OF 3 mkdir_done [of 1]] by (simp add: advance_def)
  have 5: "reachable 1 2 \<lparr>phases = [Copying, Named], permits = 0\<rparr>"
    using later [OF 4 naming_done [of 1]] by (simp add: advance_def)
  from concurrency_bound [OF 5] 5 show ?thesis
    by (simp add: copying_def)
qed


end
